theory Spec2Isabelle
  imports Complex_Main "HOL-Library.Word"
begin

section \<open>Binary64 arithmetic\<close>

text \<open>
  The normalisers of \<^verbatim>\<open>src/dicom/dicom.py\<close> compute in numpy's \<^verbatim>\<open>float64\<close>. A finite
  binary64 value is a rational number, and every operation returns the exact result rounded
  to the nearest value with a 53-bit significand, ties to the even significand.
  \<open>round_even\<close> is the integer rounding, \<open>expo q\<close> the binary exponent of a positive
  \<open>q\<close> (the \<open>e\<close> with \<open>2^e \<le> q < 2^(e+1)\<close>), and \<open>fl\<close> the rounding of an exact
  result. The operands here are integers of at most 64 bits and their quotients and
  multiples by 255, far from the overflow and subnormal ranges, which \<open>fl\<close> leaves out.
\<close>

definition round_even :: "rat \<Rightarrow> int" where
  "round_even q =
     (let f = \<lfloor>q\<rfloor>
      in if q - of_int f < 1 / 2 then f
         else if 1 / 2 < q - of_int f then f + 1
         else if even f then f else f + 1)"

function expo :: "rat \<Rightarrow> int" where
  "expo q =
     (if q \<le> 0 then 0
      else if q < 1 then expo (2 * q) - 1
      else if 2 \<le> q then expo (q / 2) + 1
      else 0)"
  by pat_completeness auto
termination
proof (relation "measure (\<lambda>q. if q < 1 then nat \<lceil>1 / q\<rceil> else nat \<lfloor>q\<rfloor>)", goal_cases)
  case 1
  show ?case by simp
next
  case (2 q)
  then have q: "0 < q" "q < 1" by auto
  show ?case
  proof (cases "2 * q < 1")
    case True
    have "1 / (2 * q) \<le> 1 / q - 1"
      using q True by (simp add: field_simps)
    then have "\<lceil>1 / (2 * q)\<rceil> \<le> \<lceil>1 / q - 1\<rceil>"
      by (rule ceiling_mono)
    moreover have "0 < \<lceil>1 / q\<rceil>" using q by simp
    ultimately show ?thesis using q True by simp
  next
    case False
    have "1 < 1 / q" using q by simp
    then have "2 \<le> \<lceil>1 / q\<rceil>" by linarith
    moreover have "\<lfloor>2 * q\<rfloor> = 1" using q False by (simp add: floor_unique)
    ultimately show ?thesis using q False by simp
  qed
next
  case (3 q)
  then have q: "2 \<le> q" by auto
  have "q / 2 \<le> q - 1" using q by simp
  then have "\<lfloor>q / 2\<rfloor> \<le> \<lfloor>q - 1\<rfloor>" by (rule floor_mono)
  moreover have "0 < \<lfloor>q\<rfloor>" using q by simp
  ultimately show ?case using q by simp
qed

declare expo.simps [simp del]

definition fl :: "rat \<Rightarrow> rat" where
  "fl q =
     (if q = 0 then 0
      else let e = expo \<bar>q\<bar> - 52
           in sgn q * of_int (round_even (\<bar>q\<bar> / 2 powi e)) * 2 powi e)"

text \<open>
  The values a \<^verbatim>\<open>float64\<close> array can hold after a division: finite numbers, the two
  infinities and NaN. numpy does not raise on a division by zero (it prints a
  \<^verbatim>\<open>RuntimeWarning\<close>): \<^verbatim>\<open>0.0 / 0.0\<close> is NaN and \<^verbatim>\<open>x / 0.0\<close> is an infinity.
  \<open>f64_div\<close> divides two finite values, \<open>f64_mul v c\<close> multiplies by a positive finite
  constant (\<^verbatim>\<open>*= 255.0\<close>).
\<close>

datatype f64 = Finite rat | PInf | NInf | NaN

definition f64_div :: "rat \<Rightarrow> rat \<Rightarrow> f64" where
  "f64_div a b =
     (if b = 0 then (if a = 0 then NaN else if 0 < a then PInf else NInf)
      else Finite (fl (a / b)))"

definition f64_mul :: "f64 \<Rightarrow> rat \<Rightarrow> f64" where
  "f64_mul v c = (case v of Finite a \<Rightarrow> Finite (fl (a * c)) | PInf \<Rightarrow> PInf | NInf \<Rightarrow> NInf | NaN \<Rightarrow> NaN)"

text \<open>
  \<^verbatim>\<open>np.uint8(a)\<close> on a float array converts each sample as C converts a \<^verbatim>\<open>double\<close> to
  an \<^verbatim>\<open>unsigned char\<close>: the fraction is discarded (truncation toward zero), and the result is
  defined when the truncated value fits, that is for values strictly between -1 and 256.
  NaN is converted to 0: numpy prints a \<^verbatim>\<open>RuntimeWarning\<close> and raises nothing. For the
  infinities and the finite values out of range the conversion is left to the platform;
  it is the parameter \<open>undef_cast\<close>.
\<close>

definition trunc :: "rat \<Rightarrow> int" where
  "trunc q = (if 0 \<le> q then \<lfloor>q\<rfloor> else \<lceil>q\<rceil>)"

type_synonym u8 = "8 word"

definition np_uint8 :: "(f64 \<Rightarrow> u8) \<Rightarrow> f64 \<Rightarrow> u8" where
  "np_uint8 undef_cast v =
     (case v of
        Finite q \<Rightarrow> if - 1 < q \<and> q < 256 then word_of_int (trunc q) else undef_cast v
      | NaN \<Rightarrow> 0
      | _ \<Rightarrow> undef_cast v)"

text \<open>
  A check used to settle the samples whose exact scaled value is an integer:
  \<open>k / 255\<close>, rounded, times 255, rounded, is \<open>k\<close> again.
\<close>

definition scale_exact :: "int \<Rightarrow> bool" where
  "scale_exact k = (fl (fl (of_int k / 255) * 255) = of_int k)"

section \<open>Pixel arrays\<close>

text \<open>
  \<^verbatim>\<open>dcm_file.pixel_array\<close> is a two-dimensional numpy array of an integer dtype: its rows
  are lists of integers, and arithmetic that stays in the dtype wraps around (\<open>wrap\<close>):
  modulo \<open>2^n\<close> for \<^verbatim>\<open>uintN\<close>, two's complement for \<^verbatim>\<open>intN\<close>.
\<close>

datatype dtype = UInt nat | SInt nat

fun wrap :: "dtype \<Rightarrow> int \<Rightarrow> int" where
  "wrap (UInt n) v = v mod 2 ^ n"
| "wrap (SInt n) v = (v + 2 ^ n div 2) mod 2 ^ n - 2 ^ n div 2"

record pixel_array =
  dtype :: dtype
  rows :: "int list list"

text \<open>
  The failures of the program: the one it raises itself (\<^verbatim>\<open>FileNotFoundError\<close> in
  \<^verbatim>\<open>__init__\<close>) and those of the calls it makes: numpy's \<^verbatim>\<open>ValueError\<close> for the minimum or
  maximum of an array without samples, Python's \<^verbatim>\<open>UnboundLocalError\<close> for a local read before
  assignment, a failing \<^verbatim>\<open>pydicom.dcmread\<close> and a failing write.
\<close>

datatype error = FileNotFoundError | ValueError | UnboundLocalError | ReadError | OSError

text \<open>\<^verbatim>\<open>np.min\<close> and \<^verbatim>\<open>np.max\<close> (and \<^verbatim>\<open>a.max()\<close>) over all samples of the array.\<close>

definition amin :: "'a::linorder list list \<Rightarrow> error + 'a" where
  "amin a = (case concat a of [] \<Rightarrow> Inl ValueError | x # xs \<Rightarrow> Inr (fold min xs x))"

definition amax :: "'a::linorder list list \<Rightarrow> error + 'a" where
  "amax a = (case concat a of [] \<Rightarrow> Inl ValueError | x # xs \<Rightarrow> Inr (fold max xs x))"

type_synonym image = "u8 list list"

section \<open>Static normalisation\<close>

text \<open>
  The body of the loop of \<^verbatim>\<open>process_static\<close> for one pixel array (lines 81 to 93):
  \<^verbatim>\<open>astype(float)\<close>, \<^verbatim>\<open>np.maximum(a, 0)\<close>, division by \<^verbatim>\<open>a.max()\<close>, \<^verbatim>\<open>*= 255.0\<close>,
  \<^verbatim>\<open>np.uint8\<close>. There is no test of the maximum before the division.
\<close>

definition process_static_array :: "(f64 \<Rightarrow> u8) \<Rightarrow> pixel_array \<Rightarrow> error + image" where
  "process_static_array undef_cast pixel_array =
     (let pixel_array_f64 = map (map (\<lambda>x. fl (of_int x))) (rows pixel_array);
          pixel_array_pos_f64 = map (map (\<lambda>v. max v 0)) pixel_array_f64
      in case amax pixel_array_pos_f64 of
           Inl e \<Rightarrow> Inl e
         | Inr m \<Rightarrow>
             (let pixel_array_pos_norm_f64 = map (map (\<lambda>v. f64_div v m)) pixel_array_pos_f64;
                  pixel_array_pos_norm_f64 = map (map (\<lambda>v. f64_mul v 255)) pixel_array_pos_norm_f64;
                  pixel_array_pos_norm_u8 = map (map (np_uint8 undef_cast)) pixel_array_pos_norm_f64
              in Inr pixel_array_pos_norm_u8))"

section \<open>Dynamic normalisation\<close>

text \<open>
  Python's truth value of \<^verbatim>\<open>min_p: int | None\<close> in \<^verbatim>\<open>if min_p:\<close>: false for \<^verbatim>\<open>None\<close>
  and for 0.
\<close>

definition truthy :: "int option \<Rightarrow> bool" where
  "truthy p = (case p of None \<Rightarrow> False | Some v \<Rightarrow> v \<noteq> 0)"

text \<open>
  Lines 143 to 148. Each bound is a local variable, unassigned (\<open>None\<close>) at first:
  \<^verbatim>\<open>if min_p: hounsfield_min = min_p\<close> assigns the caller's bound, and the next statement
  \<^verbatim>\<open>hounsfield_min = np.min(pixel_array)\<close> assigns again, without an \<^verbatim>\<open>else\<close>; the same for
  the maximum. Each \<open>let\<close> below is one assignment, the later one shadowing the earlier.
\<close>

definition hounsfield_window :: "int option \<Rightarrow> int option \<Rightarrow> pixel_array \<Rightarrow> error + (int option \<times> int option)" where
  "hounsfield_window min_p max_p pixel_array =
     (let hounsfield_min = (if truthy min_p then min_p else None)
      in case amin (rows pixel_array) of
           Inl e \<Rightarrow> Inl e
         | Inr lo \<Rightarrow>
             (let hounsfield_min = Some lo;
                  hounsfield_max = (if truthy max_p then max_p else None)
              in case amax (rows pixel_array) of
                   Inl e \<Rightarrow> Inl e
                 | Inr hi \<Rightarrow>
                     (let hounsfield_max = Some hi
                      in Inr (hounsfield_min, hounsfield_max))))"

text \<open>
  Lines 150 to 162 for one pixel array. The range is a difference of two numpy scalars of
  the array's dtype, and \<^verbatim>\<open>pixel_array - hounsfield_min\<close> stays in the dtype as well; the
  two boolean-mask assignments clip; \<^verbatim>\<open>/\<close> converts both operands to \<^verbatim>\<open>float64\<close>.
  There is no test of the range and no test that the maximum is not below the minimum.
\<close>

definition process_dynamic_array ::
  "(f64 \<Rightarrow> u8) \<Rightarrow> int option \<Rightarrow> int option \<Rightarrow> pixel_array \<Rightarrow> error + image" where
  "process_dynamic_array undef_cast min_p max_p pixel_array =
     (case hounsfield_window min_p max_p pixel_array of
        Inl e \<Rightarrow> Inl e
      | Inr (Some hounsfield_min, Some hounsfield_max) \<Rightarrow>
          (let dt = dtype pixel_array;
               hounsfield_range = wrap dt (hounsfield_max - hounsfield_min);
               clipped = map (map (\<lambda>x. if x < hounsfield_min then hounsfield_min else x)) (rows pixel_array);
               clipped = map (map (\<lambda>x. if hounsfield_max < x then hounsfield_max else x)) clipped;
               pixel_array_norm =
                 map (map (\<lambda>x. f64_div (fl (of_int (wrap dt (x - hounsfield_min))))
                                       (fl (of_int hounsfield_range)))) clipped;
               pixel_array_norm = map (map (\<lambda>v. f64_mul v 255)) pixel_array_norm;
               pixel_array_norm_u8 = map (map (np_uint8 undef_cast)) pixel_array_norm
           in Inr pixel_array_norm_u8)
      | Inr _ \<Rightarrow> Inl UnboundLocalError)"

text \<open>
  The window as the specification words it, for comparison with \<open>hounsfield_window\<close>: a
  bound the caller supplies is used, otherwise the array's observed minimum or maximum.
\<close>

definition spec_effective_window ::
  "int option \<Rightarrow> int option \<Rightarrow> pixel_array \<Rightarrow> error + (int \<times> int)" where
  "spec_effective_window low high pixel_array =
     (case (amin (rows pixel_array), amax (rows pixel_array)) of
        (Inr observed_min, Inr observed_max) \<Rightarrow>
          Inr (case low of Some l \<Rightarrow> l | None \<Rightarrow> observed_min,
               case high of Some h \<Rightarrow> h | None \<Rightarrow> observed_max)
      | _ \<Rightarrow> Inl ValueError)"

section \<open>Record set, reader, exporter and the two pipelines\<close>

text \<open>
  A path is the list of its components. The file system answers \<^verbatim>\<open>exists()\<close>,
  \<^verbatim>\<open>is_file()\<close> and the enumeration of a directory: it maps a path to nothing, to a regular
  file, to a directory with its entry names in enumeration order, or to something else
  that exists. \<^verbatim>\<open>glob("*.dcm")\<close> keeps the names that end in \<^verbatim>\<open>.dcm\<close> (compared
  case-sensitively, as on POSIX; a name starting with a dot is not left out) and is not
  recursive.
\<close>

type_synonym path = "string list"

datatype node = File | Dir "string list" | Special

type_synonym filesystem = "path \<Rightarrow> node option"

definition fnmatch_dcm :: "string \<Rightarrow> bool" where
  "fnmatch_dcm name = (4 \<le> length name \<and> drop (length name - 4) name = ''.dcm'')"

definition glob_dcm :: "filesystem \<Rightarrow> path \<Rightarrow> path list" where
  "glob_dcm fs p =
     (case fs p of Some (Dir names) \<Rightarrow> map (\<lambda>n. p @ [n]) (filter fnmatch_dcm names) | _ \<Rightarrow> [])"

record DICOM =
  path :: path
  dcm_files :: "path list"

text \<open>The constructor \<^verbatim>\<open>__init__\<close> (lines 30 to 41).\<close>

definition DICOM_init :: "filesystem \<Rightarrow> path \<Rightarrow> error + DICOM" where
  "DICOM_init fs p =
     (let self = \<lparr>path = p, dcm_files = []\<rparr>
      in if fs (path self) = None then Inl FileNotFoundError
         else if fs (path self) = Some File
           then Inr (self\<lparr>dcm_files := dcm_files self @ [path self]\<rparr>)
           else Inr (self\<lparr>dcm_files := dcm_files self @ glob_dcm fs (path self)\<rparr>))"

text \<open>
  \<^verbatim>\<open>pydicom.dcmread\<close> is outside the repository: it is a parameter that fails or returns a
  dataset, which has a pixel array or has none (\<^verbatim>\<open>hasattr(dcm_file, "pixel_array")\<close>).
  The disk is the list of directories and the list of files written. \<open>env\<close> collects
  what the surroundings decide: the reader, which directories can be created and which
  files written, and the platform's conversion of values that do not fit 8 bits.
\<close>

datatype dataset = NoPixelData | PixelData pixel_array

datatype fmt = Png | Jpg

datatype artifact = Raster image | Plot image

record world =
  dirs :: "path list"
  files :: "(path \<times> artifact) list"

record env =
  dcmread :: "path \<Rightarrow> error + dataset"
  writable :: "path \<Rightarrow> bool"
  undef_cast :: "f64 \<Rightarrow> u8"

text \<open>
  \<^verbatim>\<open>mkdir(parents=True, exist_ok=True)\<close>: nothing to do for a directory that exists;
  otherwise the directory and its missing parents are created, or the call raises.
\<close>

definition mkdir :: "env \<Rightarrow> path \<Rightarrow> world \<Rightarrow> error option \<times> world" where
  "mkdir e p w =
     (if p \<in> set (dirs w) then (None, w)
      else if writable e p
        then (None, w\<lparr>dirs := dirs w @
                filter (\<lambda>d. d \<notin> set (dirs w)) (map (\<lambda>n. take n p) [1..<Suc (length p)])\<rparr>)
        else (Some OSError, w))"

text \<open>\<^verbatim>\<open>file.stem\<close>: the last component without its last suffix.\<close>

definition stem :: "path \<Rightarrow> string" where
  "stem file =
     (let name = (if file = [] then [] else last file);
          i = length name - 1 - length (takeWhile (\<lambda>c. c \<noteq> CHR ''.'') (rev name))
      in if CHR ''.'' \<in> set name \<and> 0 < i \<and> i < length name - 1 then take i name else name)"

text \<open>
  \<^verbatim>\<open>_export\<close> (lines 171 to 198): the plot goes to \<^verbatim>\<open>plt/\<close>, the raster image to
  \<^verbatim>\<open>img/\<close>, named after the stem of the record.
\<close>

definition DICOM_export ::
  "env \<Rightarrow> image \<Rightarrow> path \<Rightarrow> path \<Rightarrow> fmt \<Rightarrow> bool \<Rightarrow> world \<Rightarrow> error option \<times> world" where
  "DICOM_export e pixel_data_u8 file output_dir format plot w =
     (let sub = (if plot then ''plt'' else ''img'');
          target = output_dir @ [sub, stem file @ ''.'' @ (if format = Jpg then ''jpg'' else ''png'')]
      in case mkdir e (output_dir @ [sub]) w of
           (Some err, w1) \<Rightarrow> (Some err, w1)
         | (None, w1) \<Rightarrow>
             if writable e target
             then (None, w1\<lparr>files := files w1 @
                     [(target, if plot then Plot pixel_data_u8 else Raster pixel_data_u8)]\<rparr>)
             else (Some OSError, w1))"

text \<open>
  The \<^verbatim>\<open>for\<close> loop that \<^verbatim>\<open>process_static\<close> (lines 67 to 100) and \<^verbatim>\<open>process_dynamic\<close>
  (lines 133 to 168) share word for word, but for the normalisation applied to the pixel
  array: read the record, \<^verbatim>\<open>continue\<close> when it has no pixel data, normalise, append, export.
  An exception ends the run; the files written so far stay.
\<close>

fun process_loop ::
  "env \<Rightarrow> (pixel_array \<Rightarrow> error + image) \<Rightarrow> path \<Rightarrow> fmt \<Rightarrow> bool \<Rightarrow>
     path list \<Rightarrow> image list \<Rightarrow> world \<Rightarrow> (error + image list) \<times> world" where
  "process_loop e normalizer output_path format plot [] processed_files w = (Inr processed_files, w)"
| "process_loop e normalizer output_path format plot (file # rest) processed_files w =
     (case dcmread e file of
        Inl err \<Rightarrow> (Inl err, w)
      | Inr NoPixelData \<Rightarrow> process_loop e normalizer output_path format plot rest processed_files w
      | Inr (PixelData pixel_array) \<Rightarrow>
          (case normalizer pixel_array of
             Inl err \<Rightarrow> (Inl err, w)
           | Inr u8 \<Rightarrow>
               (case DICOM_export e u8 file output_path format plot w of
                  (Some err, w') \<Rightarrow> (Inl err, w')
                | (None, w') \<Rightarrow>
                    process_loop e normalizer output_path format plot rest (processed_files @ [u8]) w')))"

definition process_static ::
  "env \<Rightarrow> DICOM \<Rightarrow> path \<Rightarrow> fmt \<Rightarrow> bool \<Rightarrow> world \<Rightarrow> (error + image list) \<times> world" where
  "process_static e self output_dir output_format plot w =
     (let processed_files = [];
          output_path = output_dir
      in case (if output_path \<notin> set (dirs w) then mkdir e output_path w else (None, w)) of
           (Some err, w1) \<Rightarrow> (Inl err, w1)
         | (None, w1) \<Rightarrow>
             process_loop e (process_static_array (undef_cast e)) output_path output_format plot
               (dcm_files self) processed_files w1)"

definition process_dynamic ::
  "env \<Rightarrow> DICOM \<Rightarrow> path \<Rightarrow> int option \<Rightarrow> int option \<Rightarrow> fmt \<Rightarrow> bool \<Rightarrow> world \<Rightarrow>
     (error + image list) \<times> world" where
  "process_dynamic e self output_dir min_p max_p output_format plot w =
     (let processed_files = [];
          output_path = output_dir
      in case (if output_path \<notin> set (dirs w) then mkdir e output_path w else (None, w)) of
           (Some err, w1) \<Rightarrow> (Inl err, w1)
         | (None, w1) \<Rightarrow>
             process_loop e (process_dynamic_array (undef_cast e) min_p max_p) output_path output_format plot
               (dcm_files self) processed_files w1)"

text \<open>The pixel arrays of the records that have pixel data, in record-set order.\<close>

definition pixel_arrays :: "env \<Rightarrow> path list \<Rightarrow> pixel_array list" where
  "pixel_arrays e fs =
     concat (map (\<lambda>f. case dcmread e f of Inr (PixelData pa) \<Rightarrow> [pa] | _ \<Rightarrow> []) fs)"

text \<open>Inputs for the concrete instances below.\<close>

definition example_env :: env where
  "example_env =
     \<lparr>dcmread = (\<lambda>f. if f = [''d'', ''1.dcm''] then Inr (PixelData \<lparr>dtype = UInt 16, rows = [ [0, 200] ]\<rparr>)
                     else if f = [''d'', ''3.dcm''] then Inr (PixelData \<lparr>dtype = SInt 16, rows = [ [4, 2] ]\<rparr>)
                     else Inr NoPixelData),
      writable = (\<lambda>p. True),
      undef_cast = (\<lambda>v. 0)\<rparr>"

definition example_self :: DICOM where
  "example_self = \<lparr>path = [''d''], dcm_files = [ [''d'', ''1.dcm''], [''d'', ''2.dcm''], [''d'', ''3.dcm''] ]\<rparr>"

definition example_fs :: filesystem where
  "example_fs =
     (\<lambda>p. if p = [''d''] then Some (Dir [''a.dcm'', ''b.dcm'', ''c.txt''])
          else if p = [''d'', ''a.dcm''] then Some File
          else None)"

section \<open>Properties of the rounding\<close>

lemma round_even_err: "\<bar>of_int (round_even q) - q\<bar> \<le> 1 / 2"
proof -
  have "of_int \<lfloor>q\<rfloor> \<le> q" "q < of_int \<lfloor>q\<rfloor> + 1"
    by linarith+
  then show ?thesis
    unfolding round_even_def Let_def by (simp add: abs_if) linarith
qed

lemma round_even_of_int: "round_even (of_int n) = n"
  by (simp add: round_even_def)

lemma round_even_nonneg: "0 \<le> q \<Longrightarrow> 0 \<le> round_even q"
  by (auto simp: round_even_def Let_def)

lemma expo_bounds: "0 < q \<Longrightarrow> 2 powi (expo q) \<le> q \<and> q < 2 powi (expo q + 1)"
proof (induction q rule: expo.induct)
  case (1 q)
  show ?case
  proof (cases "q < 1")
    case True
    with "1.prems" have ih: "2 powi (expo (2 * q)) \<le> 2 * q \<and> 2 * q < 2 powi (expo (2 * q) + 1)"
      using "1.IH"(1) by simp
    have e: "expo q = expo (2 * q) - 1"
      using True "1.prems" by (subst expo.simps) simp
    have "(2::rat) powi (expo (2 * q)) = 2 powi (expo q) * 2"
      unfolding e by (simp add: power_int_diff)
    moreover have "(2::rat) powi (expo (2 * q) + 1) = 2 powi (expo q + 1) * 2"
      unfolding e by (simp add: power_int_add)
    ultimately show ?thesis using ih by simp
  next
    case False
    show ?thesis
    proof (cases "2 \<le> q")
      case True
      with False "1.prems" have ih: "2 powi (expo (q / 2)) \<le> q / 2 \<and> q / 2 < 2 powi (expo (q / 2) + 1)"
        using "1.IH"(2) by simp
      have e: "expo q = expo (q / 2) + 1"
        using True False "1.prems" by (subst expo.simps) simp
      have "(2::rat) powi (expo q) = 2 powi (expo (q / 2)) * 2"
        unfolding e by (simp add: power_int_add)
      moreover have "(2::rat) powi (expo q + 1) = 2 powi (expo (q / 2) + 1) * 2"
        unfolding e by (simp add: power_int_add)
      ultimately show ?thesis using ih by simp
    next
      case F2: False
      have "expo q = 0"
        using False F2 "1.prems" by (subst expo.simps) simp
      then show ?thesis using False F2 by simp
    qed
  qed
qed

text \<open>The relative error of one rounding is at most \<open>2 ^ - 53\<close>.\<close>

lemma fl_err:
  assumes "0 < q"
  shows "\<bar>fl q - q\<bar> \<le> q / 2 ^ 53"
proof -
  define e where "e = expo q - 52"
  define m where "m = round_even (q / 2 powi e)"
  have pe: "(0::rat) < 2 powi e" by simp
  have f: "fl q = of_int m * 2 powi e"
    using assms by (simp add: fl_def e_def m_def Let_def)
  have "\<bar>of_int m - q / 2 powi e\<bar> \<le> 1 / 2"
    unfolding m_def by (rule round_even_err)
  then have "\<bar>of_int m - q / 2 powi e\<bar> * 2 powi e \<le> 1 / 2 * 2 powi e"
    using pe by (simp add: mult_right_mono)
  moreover have "\<bar>of_int m - q / 2 powi e\<bar> * 2 powi e = \<bar>of_int m * 2 powi e - q\<bar>"
  proof -
    have "\<bar>of_int m - q / 2 powi e\<bar> * 2 powi e = \<bar>(of_int m - q / 2 powi e) * 2 powi e\<bar>"
      using pe by (simp add: abs_mult)
    also have "(of_int m - q / 2 powi e) * 2 powi e = of_int m * 2 powi e - q"
      using pe by (simp add: field_simps)
    finally show ?thesis .
  qed
  moreover have "1 / 2 * (2::rat) powi e = 2 powi (expo q) / 2 ^ 53"
  proof -
    have "(2::rat) powi e = 2 powi (expo q) * 2 powi (- 52)"
      unfolding e_def by (simp add: power_int_diff power_int_add)
    then show ?thesis by (simp add: power_int_minus)
  qed
  moreover have "(2::rat) powi (expo q) / 2 ^ 53 \<le> q / 2 ^ 53"
    using expo_bounds [OF assms] by (simp add: divide_right_mono)
  ultimately show ?thesis using f by simp
qed

lemma fl_0: "fl 0 = 0"
  by (simp add: fl_def)

lemma fl_pos:
  assumes "0 < q"
  shows "0 < fl q"
proof -
  have "\<bar>fl q - q\<bar> \<le> q / 2 ^ 53" using assms by (rule fl_err)
  moreover have "q / 2 ^ 53 < q" using assms by simp
  ultimately show ?thesis by linarith
qed

lemma fl_minus: "fl (- q) = - fl q"
  by (simp add: fl_def Let_def sgn_minus)

lemma fl_nonpos: "q \<le> 0 \<Longrightarrow> fl q \<le> 0"
  using fl_pos [of "- q"] by (cases "q = 0") (simp_all add: fl_0 fl_minus)

text \<open>Integers below \<open>2 ^ 53\<close> are binary64 values: \<^verbatim>\<open>astype(float)\<close> is exact on them.\<close>

lemma fl_int:
  assumes "0 \<le> n" "n < 2 ^ 53"
  shows "fl (of_int n) = of_int n"
proof (cases "n = 0")
  case True
  then show ?thesis by (simp add: fl_0)
next
  case False
  with assms have n: "0 < n" by simp
  define q :: rat where "q = of_int n"
  have q: "0 < q" using n by (simp add: q_def)
  have "q < 2 powi 53"
  proof -
    have "(of_int n :: rat) < of_int (2 ^ 53)"
      using assms(2) by (simp only: of_int_less_iff)
    then show ?thesis by (simp add: q_def)
  qed
  moreover have "2 powi (expo q) \<le> q" using expo_bounds [OF q] by simp
  ultimately have lt: "(2::rat) powi (expo q) < 2 powi 53" by linarith
  have le: "expo q \<le> 52"
  proof (rule ccontr)
    assume "\<not> expo q \<le> 52"
    then have "53 \<le> expo q" by simp
    then have "(2::rat) powi 53 \<le> 2 powi (expo q)"
      by (intro power_int_increasing) simp_all
    with lt show False by simp
  qed
  define d where "d = nat (52 - expo q)"
  have e: "expo q - 52 = - int d" using le by (simp add: d_def)
  have p: "(2::rat) powi (expo q - 52) = 1 / 2 ^ d"
    unfolding e by (simp add: power_int_minus field_simps)
  have "q / 2 powi (expo q - 52) = of_int (n * 2 ^ d)"
    unfolding p by (simp add: q_def)
  then have "round_even (q / 2 powi (expo q - 52)) = n * 2 ^ d"
    by (simp only: round_even_of_int)
  then have "fl q = of_int (n * 2 ^ d) * (1 / 2 ^ d)"
    using q by (simp add: fl_def Let_def p)
  then show ?thesis by (simp add: q_def)
qed

lemma floor_rat_numeral: "\<lfloor>numeral a / numeral b :: rat\<rfloor> = numeral a div numeral b"
  by (metis floor_divide_of_int_eq of_int_numeral)

lemma scale_exact_upto: "list_all scale_exact [2..255]"
  by (simp add: scale_exact_def fl_def round_even_def expo.simps floor_rat_numeral)

lemma scale_exact_all:
  assumes "0 \<le> k" "k \<le> 255"
  shows "fl (fl (of_int k / 255) * 255) = of_int k"
proof -
  have "\<forall>j\<in>{2..255}. scale_exact j"
    using scale_exact_upto unfolding list_all_iff set_upto .
  moreover have "scale_exact 0"
    by (simp add: scale_exact_def fl_0)
  moreover have "scale_exact 1"
    by (simp add: scale_exact_def fl_def round_even_def expo.simps floor_rat_numeral)
  moreover have "k = 0 \<or> k = 1 \<or> k \<in> {2..255}"
    using assms by auto
  ultimately have "scale_exact k" by blast
  then show ?thesis by (simp add: scale_exact_def)
qed

text \<open>
  Dividing by the maximum, scaling by 255 and truncating gives the integer quotient
  \<open>255 * x div M\<close>: when \<open>M\<close> divides \<open>255 * x\<close> the two roundings return the exact
  integer (\<open>scale_exact_all\<close>); otherwise the exact value is at least \<open>1 / M\<close> away from
  the next integers, and the two roundings move it by less.
\<close>

lemma scale_floor:
  assumes "0 \<le> x" "x \<le> M" "0 < M" "M < 2 ^ 32"
  shows "\<lfloor>fl (fl (of_int x / of_int M) * 255)\<rfloor> = 255 * x div M"
proof -
  define k where "k = 255 * x div M"
  define r where "r = 255 * x mod M"
  have dm: "255 * x = k * M + r" by (simp add: k_def r_def)
  have r: "0 \<le> r" "r < M" using assms(3) by (simp_all add: r_def)
  have k0: "0 \<le> k" using assms by (simp add: k_def pos_imp_zdiv_nonneg_iff)
  have k255: "k \<le> 255"
  proof -
    have "255 * x div M \<le> 255 * M div M"
      using assms by (intro zdiv_mono1) simp_all
    then show ?thesis using assms(3) by (simp add: k_def)
  qed
  have Mpos: "(0::rat) < of_int M" using assms(3) by simp
  show ?thesis
  proof (cases "r = 0")
    case True
    have "(of_int (255 * x) :: rat) = of_int (k * M)" using dm True by simp
    then have "255 * (of_int x :: rat) = of_int k * of_int M" by simp
    then have "(of_int x :: rat) / of_int M = of_int k / 255"
      using Mpos by (simp add: field_simps)
    then have "fl (fl (of_int x / of_int M) * 255) = fl (fl (of_int k / 255) * 255)"
      by (simp only:)
    then have "fl (fl (of_int x / of_int M) * 255) = of_int k"
      by (simp only: scale_exact_all [OF k0 k255])
    then show ?thesis by (simp add: k_def)
  next
    case False
    with r have r1: "1 \<le> r" "r \<le> M - 1" by simp_all
    define q :: rat where "q = of_int x / of_int M"
    define t :: rat where "t = 255 * q"
    define a where "a = fl q"
    define b where "b = fl (a * 255)"
    have xpos: "0 < x"
    proof (rule ccontr)
      assume "\<not> 0 < x"
      with assms(1) have "x = 0" by simp
      then show False using False by (simp add: r_def)
    qed
    have q0: "0 < q" using xpos Mpos by (simp add: q_def)
    have q1: "q \<le> 1" using assms Mpos by (simp add: q_def)
    have t: "t = of_int k + of_int r / of_int M"
    proof -
      have "(of_int (255 * x) :: rat) = of_int (k * M + r)" using dm by simp
      then have "255 * (of_int x :: rat) = of_int k * of_int M + of_int r" by simp
      then show ?thesis using Mpos by (simp add: t_def q_def field_simps)
    qed
    have invM: "(1::rat) / 2 ^ 32 < 1 / of_int M"
    proof -
      have "(of_int M :: rat) < of_int (2 ^ 32)"
        using assms(4) by (simp only: of_int_less_iff)
      then have "(of_int M :: rat) < 2 ^ 32" by simp
      then show ?thesis using Mpos by (simp add: field_simps)
    qed
    have rlo: "1 / of_int M \<le> (of_int r :: rat) / of_int M"
      using r1 Mpos by (simp add: divide_right_mono)
    have rhi: "(of_int r :: rat) / of_int M \<le> 1 - 1 / of_int M"
    proof -
      have "(of_int r :: rat) \<le> of_int (M - 1)" using r1 by (simp only: of_int_le_iff)
      then have "(of_int r :: rat) / of_int M \<le> of_int (M - 1) / of_int M"
        using Mpos by (simp add: divide_right_mono)
      also have "\<dots> = 1 - 1 / of_int M" using Mpos by (simp add: field_simps)
      finally show ?thesis .
    qed
    have ea: "\<bar>a - q\<bar> \<le> q / 2 ^ 53" unfolding a_def using q0 by (rule fl_err)
    have a0: "0 < a" unfolding a_def using q0 by (rule fl_pos)
    have ea': "\<bar>a - q\<bar> \<le> 1 / 2 ^ 53"
    proof -
      have "q / 2 ^ 53 \<le> 1 / 2 ^ 53" using q1 by (simp add: divide_right_mono)
      with ea show ?thesis by linarith
    qed
    have p0: "0 < a * 255" using a0 by simp
    have eb: "\<bar>b - a * 255\<bar> \<le> a * 255 / 2 ^ 53" unfolding b_def using p0 by (rule fl_err)
    have pt: "\<bar>a * 255 - t\<bar> \<le> 255 / 2 ^ 53"
      using ea' by (simp add: t_def abs_if split: if_splits)
    have "t \<le> 255" using q1 by (simp add: t_def)
    with pt have "a * 255 \<le> 256" by (simp add: abs_if split: if_splits)
    then have "a * 255 / 2 ^ 53 \<le> 256 / 2 ^ 53" by (simp add: divide_right_mono)
    with eb have eb': "\<bar>b - a * 255\<bar> \<le> 256 / 2 ^ 53" by linarith
    have bt: "\<bar>b - t\<bar> \<le> 511 / 2 ^ 53" using pt eb' by linarith
    have small: "(511::rat) / 2 ^ 53 < 1 / 2 ^ 32" by simp
    have "of_int k < b" using bt small invM rlo t by linarith
    moreover have "b < of_int k + 1" using bt small invM rhi t by linarith
    ultimately have "\<lfloor>b\<rfloor> = k" by (simp add: floor_unique)
    then show ?thesis by (simp add: b_def a_def q_def k_def)
  qed
qed

section \<open>Properties of the normalisers\<close>

lemmas eval_defs =
  process_static_array_def process_dynamic_array_def hounsfield_window_def
  amin_def amax_def truthy_def f64_div_def f64_mul_def np_uint8_def trunc_def
  fl_def round_even_def expo.simps floor_rat_numeral

lemma amax_Max:
  assumes "concat a \<noteq> []"
  shows "amax a = Inr (Max (set (concat a)))"
proof -
  obtain x xs where c: "concat a = x # xs"
    using assms by (meson list.exhaust)
  have "fold max xs x = Max (set (x # xs))"
    by (rule Max.set_eq_fold [symmetric])
  then show ?thesis
    unfolding amax_def c by (simp only: list.case)
qed

lemma amin_Min:
  assumes "concat a \<noteq> []"
  shows "amin a = Inr (Min (set (concat a)))"
proof -
  obtain x xs where c: "concat a = x # xs"
    using assms by (meson list.exhaust)
  have "fold min xs x = Min (set (x # xs))"
    by (rule Min.set_eq_fold [symmetric])
  then show ?thesis
    unfolding amin_def c by (simp only: list.case)
qed

lemma amax_empty: "concat a = [] \<Longrightarrow> amax a = Inl ValueError"
  unfolding amax_def by (simp only: list.case)

lemma amin_empty: "concat a = [] \<Longrightarrow> amin a = Inl ValueError"
  unfolding amin_def by (simp only: list.case)

lemma astype_clamp:
  assumes "x < 2 ^ 32"
  shows "max (fl (of_int x)) 0 = of_int (max x 0)"
proof (cases "0 \<le> x")
  case True
  have "x < 2 ^ 53" using assms by simp
  with True have "fl (of_int x) = of_int x" by (rule fl_int)
  then show ?thesis using True by simp
next
  case False
  then have "fl (of_int x) \<le> 0" by (intro fl_nonpos) simp
  then show ?thesis using False by simp
qed

lemma static_sample:
  assumes "0 \<le> y" "y \<le> M" "0 < M" "M < 2 ^ 32"
  shows "np_uint8 uc (f64_mul (f64_div (of_int y) (of_int M)) 255) = word_of_int (255 * y div M)"
proof -
  define b where "b = fl (fl (of_int y / of_int M) * 255)"
  define k where "k = 255 * y div M"
  have fb: "\<lfloor>b\<rfloor> = k" unfolding b_def k_def using assms by (rule scale_floor)
  have k0: "0 \<le> k" using assms by (simp add: k_def pos_imp_zdiv_nonneg_iff)
  have "255 * y div M \<le> 255 * M div M"
    using assms by (intro zdiv_mono1) simp_all
  then have k255: "k \<le> 255" using assms(3) by (simp add: k_def)
  have "of_int k \<le> b" "b < of_int k + 1"
    using fb by linarith+
  then have b: "0 \<le> b" "b < 256" using k0 k255 by linarith+
  have "f64_mul (f64_div (of_int y) (of_int M)) 255 = Finite b"
    using assms(3) by (simp add: f64_div_def f64_mul_def b_def)
  then show ?thesis using b fb by (simp add: np_uint8_def trunc_def k_def)
qed

lemma static_array:
  assumes ne: "concat (rows pa) \<noteq> []"
    and bound: "\<forall>x\<in>set (concat (rows pa)). x < 2 ^ 32"
    and M: "M = Max ((\<lambda>x. max x 0) ` set (concat (rows pa)))"
    and pos: "0 < M"
  shows "process_static_array uc pa = Inr (map (map (\<lambda>x. word_of_int (255 * max x 0 div M))) (rows pa))"
proof -
  let ?g = "\<lambda>x. max (fl (of_int x)) 0"
  let ?h = "\<lambda>x::int. (of_int (max x 0) :: rat)"
  have gh: "?g x = ?h x" if "x \<in> set (concat (rows pa))" for x
  proof -
    have "x < 2 ^ 32" using that bound by blast
    then show ?thesis by (rule astype_clamp)
  qed
  have rowsgh: "map (map ?g) (rows pa) = map (map ?h) (rows pa)"
  proof (intro map_cong refl)
    fix r x assume "r \<in> set (rows pa)" "x \<in> set r"
    then have "x \<in> set (concat (rows pa))" by auto
    then show "?g x = ?h x" by (rule gh)
  qed
  have cc: "concat (map (map ?h) (rows pa)) = map ?h (concat (rows pa))"
    by (simp add: map_concat)
  have fin: "finite ((\<lambda>x. max x 0) ` set (concat (rows pa)))" by simp
  have nes: "(\<lambda>x. max x 0) ` set (concat (rows pa)) \<noteq> {}" using ne by simp
  have ne': "concat (map (map ?h) (rows pa)) \<noteq> []"
    unfolding cc using ne by (simp only: map_is_Nil_conv not_False_eq_True)
  have "Max (set (map ?h (concat (rows pa)))) = Max (of_int ` ((\<lambda>x. max x 0) ` set (concat (rows pa))))"
    by (simp only: set_map image_image)
  also have "\<dots> = of_int M"
    unfolding M by (rule mono_Max_commute [symmetric]) (simp_all only: mono_def of_int_le_iff fin nes simp_thms)
  finally have "Max (set (concat (map (map ?h) (rows pa)))) = of_int M"
    unfolding cc .
  with amax_Max [OF ne'] have mx: "amax (map (map ?h) (rows pa)) = Inr (of_int M)"
    by (simp only:)
  have Mbound: "M < 2 ^ 32"
  proof -
    have "M \<in> (\<lambda>x. max x 0) ` set (concat (rows pa))"
      unfolding M using fin nes by (rule Max_in)
    then obtain x where "x \<in> set (concat (rows pa))" "M = max x 0" by auto
    moreover from this bound have "x < 2 ^ 32" by blast
    ultimately show ?thesis by simp
  qed
  have sample: "np_uint8 uc (f64_mul (f64_div (?h x) (of_int M)) 255) = word_of_int (255 * max x 0 div M)"
    if "x \<in> set (concat (rows pa))" for x
  proof -
    have "max x 0 \<le> M" unfolding M using that fin by (intro Max_ge) simp_all
    then show ?thesis using pos Mbound by (intro static_sample) simp_all
  qed
  have "map (map (\<lambda>x. np_uint8 uc (f64_mul (f64_div (?h x) (of_int M)) 255))) (rows pa)
        = map (map (\<lambda>x. word_of_int (255 * max x 0 div M))) (rows pa)"
  proof (intro map_cong refl)
    fix r x assume "r \<in> set (rows pa)" "x \<in> set r"
    then have "x \<in> set (concat (rows pa))" by auto
    then show "np_uint8 uc (f64_mul (f64_div (?h x) (of_int M)) 255) = word_of_int (255 * max x 0 div M)"
      by (rule sample)
  qed
  then have fin_eq: "map (map (np_uint8 uc)) (map (map (\<lambda>v. f64_mul v 255))
          (map (map (\<lambda>v. f64_div v (of_int M))) (map (map ?h) (rows pa))))
        = map (map (\<lambda>x. word_of_int (255 * max x 0 div M))) (rows pa)"
    by (simp only: map_map comp_def)
  have pos_eq: "map (map (\<lambda>v. max v 0)) (map (map (\<lambda>x. fl (of_int x))) (rows pa)) = map (map ?h) (rows pa)"
    using rowsgh by (simp only: map_map comp_def)
  show ?thesis
    unfolding process_static_array_def Let_def pos_eq mx
    by (simp only: sum.case fin_eq)
qed

lemma process_static_array_total:
  assumes "concat (rows pa) \<noteq> []"
  shows "\<exists>img. process_static_array uc pa = Inr img"
proof -
  let ?pos = "map (map (\<lambda>v. max v 0)) (map (map (\<lambda>x. fl (of_int x))) (rows pa))"
  have "concat ?pos = map (\<lambda>x. max (fl (of_int x)) 0) (concat (rows pa))"
    by (simp only: map_map comp_def map_concat)
  with assms have "concat ?pos \<noteq> []"
    by (simp only: map_is_Nil_conv not_False_eq_True)
  then have "amax ?pos = Inr (Max (set (concat ?pos)))"
    by (rule amax_Max)
  then show ?thesis
    unfolding process_static_array_def Let_def by (simp only: sum.case) blast
qed

lemma process_static_array_empty:
  assumes "concat (rows pa) = []"
  shows "process_static_array uc pa = Inl ValueError"
proof -
  let ?pos = "map (map (\<lambda>v. max v 0)) (map (map (\<lambda>x. fl (of_int x))) (rows pa))"
  have "concat ?pos = map (\<lambda>x. max (fl (of_int x)) 0) (concat (rows pa))"
    by (simp only: map_map comp_def map_concat)
  with assms have "concat ?pos = []"
    by (simp only: list.map)
  then have "amax ?pos = Inl ValueError"
    by (rule amax_empty)
  then show ?thesis
    unfolding process_static_array_def Let_def by (simp only: sum.case)
qed

lemma hounsfield_window_ignores:
  "hounsfield_window min_p max_p pa = hounsfield_window None None pa"
  by (simp add: hounsfield_window_def Let_def split: sum.splits)

lemma hounsfield_window_nonempty:
  assumes "concat (rows pa) \<noteq> []"
  shows "hounsfield_window min_p max_p pa =
           Inr (Some (Min (set (concat (rows pa)))), Some (Max (set (concat (rows pa)))))"
  by (simp add: hounsfield_window_def Let_def amin_Min [OF assms] amax_Max [OF assms])

lemma hounsfield_window_empty:
  assumes "concat (rows pa) = []"
  shows "hounsfield_window min_p max_p pa = Inl ValueError"
  by (simp add: hounsfield_window_def Let_def amin_empty [OF assms])

lemma process_dynamic_array_ignores:
  "process_dynamic_array uc min_p max_p pa = process_dynamic_array uc None None pa"
  unfolding process_dynamic_array_def
  by (subst hounsfield_window_ignores) (rule refl)

lemma process_dynamic_array_total:
  assumes "concat (rows pa) \<noteq> []"
  shows "\<exists>img. process_dynamic_array uc min_p max_p pa = Inr img"
  unfolding process_dynamic_array_def hounsfield_window_nonempty [OF assms]
  by (simp add: Let_def)

lemma process_dynamic_array_empty:
  assumes "concat (rows pa) = []"
  shows "process_dynamic_array uc min_p max_p pa = Inl ValueError"
  unfolding process_dynamic_array_def hounsfield_window_empty [OF assms]
  by simp

lemma pixel_arrays_Cons:
  "pixel_arrays e (f # fs) =
     (case dcmread e f of Inr (PixelData pa) \<Rightarrow> [pa] | _ \<Rightarrow> []) @ pixel_arrays e fs"
  by (simp add: pixel_arrays_def)

lemma mkdir_ok:
  assumes "\<forall>p. writable e p"
  shows "\<exists>w1. mkdir e p w = (None, w1)"
  using assms by (simp add: mkdir_def)

lemma DICOM_export_ok:
  assumes "\<forall>p. writable e p"
  shows "\<exists>w1. DICOM_export e img f out fm plot w = (None, w1)"
proof -
  obtain w1 where "mkdir e (out @ [if plot then ''plt'' else ''img'']) w = (None, w1)"
    using mkdir_ok [OF assms] by blast
  then show ?thesis
    using assms by (simp add: DICOM_export_def Let_def)
qed

lemma process_loop_ok:
  assumes "\<forall>f\<in>set fs. \<exists>ds. dcmread e f = Inr ds"
    and "\<forall>pa\<in>set (pixel_arrays e fs). \<exists>img. normalizer pa = Inr img"
    and "\<forall>p. writable e p"
  shows "\<exists>outs w'. process_loop e normalizer out fm plot fs acc w = (Inr (acc @ outs), w')
           \<and> map Inr outs = map normalizer (pixel_arrays e fs)"
  using assms(1,2)
proof (induction fs arbitrary: acc w)
  case Nil
  show ?case by (simp add: pixel_arrays_def)
next
  case (Cons f fs)
  from Cons.prems(1) obtain ds where ds: "dcmread e f = Inr ds" by auto
  have reads: "\<forall>f\<in>set fs. \<exists>ds. dcmread e f = Inr ds" using Cons.prems(1) by simp
  have norms: "\<forall>pa\<in>set (pixel_arrays e fs). \<exists>img. normalizer pa = Inr img"
    using Cons.prems(2) by (simp add: pixel_arrays_Cons)
  show ?case
  proof (cases ds)
    case NoPixelData
    from Cons.IH [OF reads norms, of acc w] show ?thesis
      by (simp add: ds NoPixelData pixel_arrays_Cons)
  next
    case (PixelData pa)
    have "pa \<in> set (pixel_arrays e (f # fs))"
      by (simp add: pixel_arrays_Cons ds PixelData)
    with Cons.prems(2) obtain img where img: "normalizer pa = Inr img" by blast
    obtain w1 where ex: "DICOM_export e img f out fm plot w = (None, w1)"
      using DICOM_export_ok [OF assms(3)] by blast
    from Cons.IH [OF reads norms, of "acc @ [img]" w1]
    obtain outs w' where
      r: "process_loop e normalizer out fm plot fs (acc @ [img]) w1 = (Inr ((acc @ [img]) @ outs), w')"
      and m: "map Inr outs = map normalizer (pixel_arrays e fs)"
      by blast
    have "process_loop e normalizer out fm plot (f # fs) acc w = (Inr (acc @ (img # outs)), w')"
      by (simp add: ds PixelData img ex r)
    moreover have "map Inr (img # outs) = map normalizer (pixel_arrays e (f # fs))"
      by (simp add: pixel_arrays_Cons ds PixelData img m)
    ultimately show ?thesis by blast
  qed
qed

lemma wrap_0: "wrap dt 0 = 0"
proof (cases dt)
  case (UInt n)
  then show ?thesis by simp
next
  case (SInt n)
  have "(2::int) ^ n div 2 < 2 ^ n" by (rule int_div_less_self) simp_all
  moreover have "(0::int) \<le> 2 ^ n div 2" by simp
  ultimately have "((2::int) ^ n div 2) mod 2 ^ n = 2 ^ n div 2" by simp
  then show ?thesis using SInt by simp
qed

text \<open>
  A constant array: the window taken from it has zero range, every quotient is
  \<open>0 / 0\<close>, and the output is all zero.
\<close>

lemma dynamic_constant_all_zero:
  assumes "concat (rows pa) \<noteq> []"
    and "\<forall>x\<in>set (concat (rows pa)). x = c"
  shows "process_dynamic_array uc min_p max_p pa = Inr (map (map (\<lambda>x. 0)) (rows pa))"
proof -
  have s: "set (concat (rows pa)) = {c}"
    using assms by (cases "concat (rows pa)") auto
  have win: "hounsfield_window min_p max_p pa = Inr (Some c, Some c)"
    unfolding hounsfield_window_nonempty [OF assms(1)] s by simp
  let ?f = "\<lambda>x. np_uint8 uc (f64_mul (f64_div (fl (of_int (wrap (dtype pa)
               ((if c < (if x < c then c else x) then c else (if x < c then c else x)) - c))))
               (fl (of_int (wrap (dtype pa) (c - c))))) 255)"
  have f: "?f x = 0" if "x \<in> set (concat (rows pa))" for x
  proof -
    have "x = c" using that assms(2) by blast
    then show ?thesis
      by (simp add: wrap_0 fl_0 f64_div_def f64_mul_def np_uint8_def)
  qed
  have "map (map ?f) (rows pa) = map (map (\<lambda>x. 0)) (rows pa)"
  proof (intro map_cong refl)
    fix r x assume "r \<in> set (rows pa)" "x \<in> set r"
    then have "x \<in> set (concat (rows pa))" by auto
    then show "?f x = 0" by (rule f)
  qed
  then show ?thesis
    unfolding process_dynamic_array_def win Let_def
    by (simp only: sum.case prod.case option.case map_map comp_def)
qed

section \<open>The claims\<close>

text \<open>
  C1. The claim: a bound the caller supplies is used as \<open>hounsfield_min\<close> (as
  \<open>hounsfield_max\<close>), the array's observed extremum otherwise. The code at the window
  (50, 150) on the array \<open>[ [0,50],[100,200] ]\<close>: the specification's window is (50, 150),
  the code's window is the observed (0, 200), and the output is that of the full range.
\<close>

theorem dynamic_window_discards_caller_bounds:
  "hounsfield_window (Some 50) (Some 150) \<lparr>dtype = UInt 16, rows = [ [0, 50], [100, 200] ]\<rparr>
     = Inr (Some 0, Some 200)
   \<and> spec_effective_window (Some 50) (Some 150) \<lparr>dtype = UInt 16, rows = [ [0, 50], [100, 200] ]\<rparr>
     = Inr (50, 150)
   \<and> process_dynamic_array (\<lambda>v. 0) (Some 50) (Some 150) \<lparr>dtype = UInt 16, rows = [ [0, 50], [100, 200] ]\<rparr>
     = Inr [ [0, 63], [127, 255] ]"
  by (simp add: eval_defs spec_effective_window_def)

text \<open>
  C2. For every pixel array that has a sample and no positive sample (all-zero or
  all-negative: the maximum after clamping is zero), static normalisation returns an
  all-zero array of the same shape and no error: every quotient is \<open>0 / 0\<close>, which is
  NaN, and \<^verbatim>\<open>np.uint8\<close> converts NaN to 0.
\<close>

theorem static_zero_max_all_zero:
  assumes "concat (rows pa) \<noteq> []"
    and "\<forall>x\<in>set (concat (rows pa)). x \<le> 0"
  shows "process_static_array uc pa = Inr (map (map (\<lambda>x. 0)) (rows pa))"
proof -
  let ?g = "\<lambda>x. max (fl (of_int x)) 0"
  have g0: "?g x = 0" if "x \<in> set (concat (rows pa))" for x
  proof -
    have "x \<le> 0" using that assms(2) by blast
    then have "fl (of_int x) \<le> 0" by (intro fl_nonpos) simp
    then show ?thesis by simp
  qed
  have rows0: "map (map ?g) (rows pa) = map (map (\<lambda>x. 0)) (rows pa)"
  proof (intro map_cong refl)
    fix r x assume "r \<in> set (rows pa)" "x \<in> set r"
    then have "x \<in> set (concat (rows pa))" by auto
    then show "?g x = 0" by (rule g0)
  qed
  have pos_eq: "map (map (\<lambda>v. max v 0)) (map (map (\<lambda>x. fl (of_int x))) (rows pa))
                  = map (map (\<lambda>x. 0 :: rat)) (rows pa)"
    using rows0 by (simp only: map_map comp_def)
  have cc: "concat (map (map (\<lambda>x. 0 :: rat)) (rows pa)) = map (\<lambda>x. 0) (concat (rows pa))"
    by (simp only: map_concat)
  have ne': "concat (map (map (\<lambda>x. 0 :: rat)) (rows pa)) \<noteq> []"
    unfolding cc using assms(1) by (simp only: map_is_Nil_conv not_False_eq_True)
  have "set (map (\<lambda>x. 0 :: rat) (concat (rows pa))) = {0}"
    using assms(1) by (cases "concat (rows pa)") auto
  then have "Max (set (concat (map (map (\<lambda>x. 0 :: rat)) (rows pa)))) = 0"
    unfolding cc by simp
  with amax_Max [OF ne'] have mx: "amax (map (map (\<lambda>x. 0 :: rat)) (rows pa)) = Inr 0"
    by (simp only:)
  show ?thesis
    unfolding process_static_array_def Let_def pos_eq mx
    by (simp add: comp_def f64_div_def f64_mul_def np_uint8_def)
qed

theorem static_zero_max_all_zero_witness:
  "process_static_array (\<lambda>v. 255) \<lparr>dtype = SInt 16, rows = [ [0, - 4], [- 1, 0] ]\<rparr> = Inr [ [0, 0], [0, 0] ]"
  using static_zero_max_all_zero [of "\<lparr>dtype = SInt 16, rows = [ [0, - 4], [- 1, 0] ]\<rparr>" "\<lambda>v. 255"]
  by simp

text \<open>
  C3. The claim: a resolved window with high equal to low gives an all-zero output. The
  code at the caller's window (100, 100) on the array \<open>[ [0,200] ]\<close>: the specification's
  window is (100, 100), of zero range; the code discards both bounds, its window is the
  observed (0, 200), and the output is \<open>[ [0,255] ]\<close>.
\<close>

theorem dynamic_equal_bounds_not_zero:
  "spec_effective_window (Some 100) (Some 100) \<lparr>dtype = UInt 16, rows = [ [0, 200] ]\<rparr> = Inr (100, 100)
   \<and> hounsfield_window (Some 100) (Some 100) \<lparr>dtype = UInt 16, rows = [ [0, 200] ]\<rparr>
       = Inr (Some 0, Some 200)
   \<and> process_dynamic_array (\<lambda>v. 0) (Some 100) (Some 100) \<lparr>dtype = UInt 16, rows = [ [0, 200] ]\<rparr>
       = Inr [ [0, 255] ]"
  by (simp add: eval_defs spec_effective_window_def)

text \<open>
  C4, as amended. Dynamic normalisation makes no test of the window: whatever bounds the
  caller passes, it returns an output array for every pixel array that has a sample, and
  its only failure is the \<^verbatim>\<open>ValueError\<close> of an array without samples.
\<close>

theorem dynamic_no_window_check:
  "(concat (rows pa) \<noteq> [] \<longrightarrow> (\<exists>img. process_dynamic_array uc min_p max_p pa = Inr img))
   \<and> (concat (rows pa) = [] \<longrightarrow> process_dynamic_array uc min_p max_p pa = Inl ValueError)"
  using process_dynamic_array_total process_dynamic_array_empty by blast

theorem dynamic_no_window_check_witness:
  "(\<exists>img. process_dynamic_array (\<lambda>v. 0) (Some 100) (Some 50) \<lparr>dtype = UInt 16, rows = [ [0, 200] ]\<rparr> = Inr img)
   \<and> process_dynamic_array (\<lambda>v. 0) (Some 100) (Some 50) \<lparr>dtype = UInt 16, rows = [ [] ]\<rparr> = Inl ValueError"
  using dynamic_no_window_check [of "\<lparr>dtype = UInt 16, rows = [ [0, 200] ]\<rparr>" "\<lambda>v. 0" "Some 100" "Some 50"]
    dynamic_no_window_check [of "\<lparr>dtype = UInt 16, rows = [ [] ]\<rparr>" "\<lambda>v. 0" "Some 100" "Some 50"]
  by simp

text \<open>
  C4 as stated fails: with the bounds (100, 50), high below low, the code returns an
  output array.
\<close>

theorem dynamic_inverted_window_counterexample:
  "spec_effective_window (Some 100) (Some 50) \<lparr>dtype = UInt 16, rows = [ [0, 200] ]\<rparr> = Inr (100, 50)
   \<and> process_dynamic_array (\<lambda>v. 0) (Some 100) (Some 50) \<lparr>dtype = UInt 16, rows = [ [0, 200] ]\<rparr>
     = Inr [ [0, 255] ]"
  by (simp add: eval_defs spec_effective_window_def)

text \<open>
  C5, as amended. For every array of samples below \<open>2 ^ 32\<close> whose maximum \<open>M\<close> after
  clamping is positive, static normalisation returns an array of the same shape whose
  samples are at most 255, and a sample is 255 exactly where the raw sample is \<open>M\<close>.
\<close>

theorem static_255_at_maximum:
  assumes "concat (rows pa) \<noteq> []"
    and "\<forall>x\<in>set (concat (rows pa)). x < 2 ^ 32"
    and "M = Max ((\<lambda>x. max x 0) ` set (concat (rows pa)))"
    and "0 < M"
  shows "\<exists>img. process_static_array uc pa = Inr img
           \<and> list_all2 (list_all2 (\<lambda>x y. unat y \<le> 255 \<and> (y = 255 \<longleftrightarrow> x = M))) (rows pa) img"
proof -
  let ?g = "\<lambda>x. word_of_int (255 * max x 0 div M) :: u8"
  have img: "process_static_array uc pa = Inr (map (map ?g) (rows pa))"
    using assms by (rule static_array)
  have fin: "finite ((\<lambda>x. max x 0) ` set (concat (rows pa)))" by simp
  have P: "unat (?g x) \<le> 255 \<and> (?g x = 255 \<longleftrightarrow> x = M)" if x: "x \<in> set (concat (rows pa))" for x
  proof -
    define y where "y = max x 0"
    define k where "k = 255 * y div M"
    have yM: "y \<le> M" unfolding y_def assms(3) using x fin by (intro Max_ge) simp_all
    have y0: "0 \<le> y" by (simp add: y_def)
    have k0: "0 \<le> k" using y0 assms(4) by (simp add: k_def pos_imp_zdiv_nonneg_iff)
    have "255 * y div M \<le> 255 * M div M"
      using yM assms(4) by (intro zdiv_mono1) simp_all
    then have k255: "k \<le> 255" using assms(4) by (simp add: k_def)
    have keq: "k = 255 \<longleftrightarrow> y = M"
    proof
      assume k: "k = 255"
      have "255 * y = M * (255 * y div M) + 255 * y mod M" by simp
      moreover have "0 \<le> 255 * y mod M" using assms(4) by simp
      moreover have "M * (255 * y div M) = M * 255" using k by (simp add: k_def)
      ultimately have "M * 255 \<le> 255 * y" by linarith
      then show "y = M" using yM by simp
    next
      assume "y = M"
      then show "k = 255" using assms(4) by (simp add: k_def)
    qed
    have "unat (word_of_int k :: u8) < 2 ^ LENGTH(8)" by (rule unsigned_less)
    then have u: "unat (word_of_int k :: u8) \<le> 255" by simp
    have w: "(word_of_int k :: u8) = 255 \<longleftrightarrow> k = 255"
    proof
      assume "(word_of_int k :: u8) = 255"
      then have "uint (word_of_int k :: u8) = uint (255 :: u8)" by simp
      then show "k = 255" using k0 k255 by (simp add: uint_word_of_int)
    qed simp
    have "y = M \<longleftrightarrow> x = M" using assms(4) by (auto simp: y_def)
    with u w keq show ?thesis by (simp add: k_def y_def)
  qed
  have "list_all2 (list_all2 (\<lambda>x y. unat y \<le> 255 \<and> (y = 255 \<longleftrightarrow> x = M))) (rows pa) (map (map ?g) (rows pa))"
    unfolding list_all2_map2 list_all2_same
  proof (intro ballI)
    fix r x assume "r \<in> set (rows pa)" "x \<in> set r"
    then have "x \<in> set (concat (rows pa))" by auto
    then show "unat (?g x) \<le> 255 \<and> (?g x = 255 \<longleftrightarrow> x = M)" by (rule P)
  qed
  with img show ?thesis by blast
qed

theorem static_255_at_maximum_witness:
  "\<exists>img. process_static_array (\<lambda>v. 0) \<lparr>dtype = SInt 16, rows = [ [- 7, 9], [3, 9] ]\<rparr> = Inr img
     \<and> list_all2 (list_all2 (\<lambda>x y. unat y \<le> 255 \<and> (y = 255 \<longleftrightarrow> x = 9))) [ [- 7, 9], [3, 9 :: int] ] img"
  using static_255_at_maximum [of "\<lparr>dtype = SInt 16, rows = [ [- 7, 9], [3, 9] ]\<rparr>" 9 "\<lambda>v. 0"]
  by simp

text \<open>
  C5 as stated fails: an array that holds its maximum twice has two samples equal to 255,
  not exactly one.
\<close>

theorem static_two_maxima_counterexample:
  "process_static_array (\<lambda>v. 0) \<lparr>dtype = UInt 16, rows = [ [5, 5] ]\<rparr> = Inr [ [255, 255] ]
   \<and> length (filter (\<lambda>y. y = 255) (concat [ [255, 255 :: u8] ])) \<noteq> 1"
  by (simp add: eval_defs)

text \<open>
  C6, as amended. Static normalisation of \<open>[ [0,50],[100,200] ]\<close> yields
  \<open>[ [0,63],[127,255] ]\<close>: 63.75 and 127.5 are truncated.
\<close>

theorem static_example_truncated:
  "process_static_array uc \<lparr>dtype = dt, rows = [ [0, 50], [100, 200] ]\<rparr> = Inr [ [0, 63], [127, 255] ]"
  by (simp add: eval_defs)

text \<open>C6 as stated fails: the output is not \<open>[ [0,64],[128,255] ]\<close>.\<close>

theorem static_example_counterexample:
  "process_static_array (\<lambda>v. 0) \<lparr>dtype = UInt 16, rows = [ [0, 50], [100, 200] ]\<rparr>
     \<noteq> Inr [ [0, 64], [128, 255] ]"
  by (simp add: eval_defs)

text \<open>
  C7. Construction fails with \<^verbatim>\<open>FileNotFoundError\<close> when the path does not exist; for a
  regular file the record set is that one path; for a directory it is the entries whose
  names match \<^verbatim>\<open>*.dcm\<close>, in enumeration order; a directory holding \<^verbatim>\<open>a.dcm\<close>,
  \<^verbatim>\<open>b.dcm\<close>, \<^verbatim>\<open>c.txt\<close> resolves to \<^verbatim>\<open>a.dcm\<close> and \<^verbatim>\<open>b.dcm\<close>.
\<close>

theorem init_resolves_record_set:
  "(fs p = None \<longrightarrow> DICOM_init fs p = Inl FileNotFoundError)
   \<and> (fs p = Some File \<longrightarrow> DICOM_init fs p = Inr \<lparr>path = p, dcm_files = [p]\<rparr>)
   \<and> (fs p = Some (Dir names) \<longrightarrow>
        DICOM_init fs p = Inr \<lparr>path = p, dcm_files = map (\<lambda>n. p @ [n]) (filter fnmatch_dcm names)\<rparr>)
   \<and> (fs p = Some (Dir [''a.dcm'', ''b.dcm'', ''c.txt'']) \<longrightarrow>
        DICOM_init fs p = Inr \<lparr>path = p, dcm_files = [p @ [''a.dcm''], p @ [''b.dcm''] ]\<rparr>)"
  by (simp add: DICOM_init_def glob_dcm_def fnmatch_dcm_def)

theorem init_resolves_record_set_witness:
  "DICOM_init example_fs [''missing''] = Inl FileNotFoundError
   \<and> DICOM_init example_fs [''d'', ''a.dcm''] = Inr \<lparr>path = [''d'', ''a.dcm''], dcm_files = [ [''d'', ''a.dcm''] ]\<rparr>
   \<and> DICOM_init example_fs [''d''] = Inr \<lparr>path = [''d''], dcm_files = [ [''d'', ''a.dcm''], [''d'', ''b.dcm''] ]\<rparr>"
  using init_resolves_record_set [of example_fs "[''missing'']"]
    init_resolves_record_set [of example_fs "[''d'', ''a.dcm'']"]
    init_resolves_record_set [of example_fs "[''d'']" "[''a.dcm'', ''b.dcm'', ''c.txt'']"]
  by (simp add: example_fs_def fnmatch_dcm_def)

text \<open>
  C8. When every record can be read, every pixel array has a sample and every write
  succeeds, \<^verbatim>\<open>process_static\<close> returns, and the sequence it returns holds the normalised
  arrays of the records that have pixel data, one for each, in record-set order: the
  records without pixel data are skipped and the run goes on. The instance after it runs
  three records of which the second has no pixel data: two arrays, of the first and the
  third record.
\<close>

theorem process_static_skips_records_without_pixels:
  assumes "\<forall>f\<in>set (dcm_files self). \<exists>ds. dcmread e f = Inr ds"
    and "\<forall>pa\<in>set (pixel_arrays e (dcm_files self)). concat (rows pa) \<noteq> []"
    and "\<forall>p. writable e p"
  shows "\<exists>outs w'. process_static e self output_dir output_format plot w = (Inr outs, w')
           \<and> map Inr outs = map (process_static_array (undef_cast e)) (pixel_arrays e (dcm_files self))"
proof -
  have "\<forall>pa\<in>set (pixel_arrays e (dcm_files self)). \<exists>img. process_static_array (undef_cast e) pa = Inr img"
    using assms(2) process_static_array_total by blast
  note loop = process_loop_ok [OF assms(1) this assms(3), where acc = "[]"]
  obtain w1 where mk:
    "(if output_dir \<notin> set (dirs w) then mkdir e output_dir w else (None, w)) = (None, w1)"
    using mkdir_ok [OF assms(3), of output_dir w] by (cases "output_dir \<in> set (dirs w)") auto
  from loop [of output_dir output_format plot w1]
  show ?thesis
    unfolding process_static_def Let_def mk by simp
qed

theorem process_static_skips_records_without_pixels_witness:
  "fst (process_static example_env example_self [''out''] Png False \<lparr>dirs = [], files = []\<rparr>)
     = Inr [ [ [0, 255] ], [ [255, 127] ] ]"
proof -
  have r: "\<forall>f\<in>set (dcm_files example_self). \<exists>ds. dcmread example_env f = Inr ds"
    by (simp add: example_self_def example_env_def)
  have pa: "pixel_arrays example_env (dcm_files example_self)
              = [\<lparr>dtype = UInt 16, rows = [ [0, 200] ]\<rparr>, \<lparr>dtype = SInt 16, rows = [ [4, 2] ]\<rparr>]"
    by (simp add: pixel_arrays_def example_self_def example_env_def)
  have a: "\<forall>pa\<in>set (pixel_arrays example_env (dcm_files example_self)). concat (rows pa) \<noteq> []"
    unfolding pa by simp
  have w: "\<forall>p. writable example_env p"
    by (simp add: example_env_def)
  from process_static_skips_records_without_pixels [OF r a w, of "[''out'']" Png False "\<lparr>dirs = [], files = []\<rparr>"]
  obtain outs w' where
    res: "process_static example_env example_self [''out''] Png False \<lparr>dirs = [], files = []\<rparr> = (Inr outs, w')"
    and m: "map Inr outs = map (process_static_array (undef_cast example_env))
              (pixel_arrays example_env (dcm_files example_self))"
    by blast
  have "map (process_static_array (undef_cast example_env)) (pixel_arrays example_env (dcm_files example_self))
          = [Inr [ [0, 255] ], Inr [ [255, 127] ] ]"
    unfolding pa by (simp add: eval_defs)
  with m have "map Inr outs = [Inr [ [0, 255] ], Inr [ [255, 127 :: u8] ] :: error + image]"
    by simp
  then have "outs = [ [ [0, 255] ], [ [255, 127] ] ]"
    by (auto simp: map_eq_Cons_conv)
  with res show ?thesis by simp
qed

text \<open>
  C9. What \<^verbatim>\<open>process_dynamic\<close> returns (and what it writes) is the same for any two
  choices of \<^verbatim>\<open>min_p\<close> and \<^verbatim>\<open>max_p\<close>.
\<close>

theorem process_dynamic_independent_of_bounds:
  "process_dynamic e self output_dir min_p max_p output_format plot w
     = process_dynamic e self output_dir min_p' max_p' output_format plot w"
proof -
  have "process_dynamic_array (undef_cast e) min_p max_p = process_dynamic_array (undef_cast e) min_p' max_p'"
    by (rule ext) (metis process_dynamic_array_ignores)
  then show ?thesis
    unfolding process_dynamic_def by (simp only:)
qed

text \<open>
  C10, as amended. For every array of samples below \<open>2 ^ 32\<close> whose maximum \<open>M\<close> after
  clamping negatives to zero is positive, each sample of the static output is
  \<open>\<lfloor>255 * max x 0 / M\<rfloor>\<close>: the conversion truncates.
\<close>

theorem static_truncates:
  assumes "concat (rows pa) \<noteq> []"
    and "\<forall>x\<in>set (concat (rows pa)). x < 2 ^ 32"
    and "M = Max ((\<lambda>x. max x 0) ` set (concat (rows pa)))"
    and "0 < M"
  shows "process_static_array uc pa =
           Inr (map (map (\<lambda>x. word_of_int \<lfloor>255 * of_int (max x 0) / (of_int M :: rat)\<rfloor>)) (rows pa))"
proof -
  have "\<lfloor>255 * of_int y / (of_int M :: rat)\<rfloor> = 255 * y div M" for y :: int
    using floor_divide_of_int_eq [of "255 * y" M, where ?'a = rat] by simp
  then show ?thesis
    using static_array [OF assms, of uc] by simp
qed

theorem static_truncates_witness:
  "process_static_array (\<lambda>v. 0) \<lparr>dtype = SInt 16, rows = [ [- 3, 1], [2, 3] ]\<rparr> = Inr [ [0, 85], [170, 255] ]"
  using static_truncates [of "\<lparr>dtype = SInt 16, rows = [ [- 3, 1], [2, 3] ]\<rparr>" 3 "\<lambda>v. 0"]
  by (simp add: floor_rat_numeral)

text \<open>
  C10 as stated fails for large samples. \<^verbatim>\<open>astype(float)\<close> rounds \<open>2 ^ 53 + 1\<close> to
  \<open>2 ^ 53\<close>, so the sample \<open>2 ^ 53\<close> beside the maximum \<open>2 ^ 53 + 1\<close> becomes 255 where
  the floor is 254; and below \<open>2 ^ 53\<close> the two roundings of the division and of the
  scaling can reach the next integer, 254 where the floor is 253.
\<close>

theorem static_truncates_counterexample:
  "process_static_array (\<lambda>v. 0) \<lparr>dtype = SInt 64, rows = [ [9007199254740992, 9007199254740993] ]\<rparr>
     = Inr [ [255, 255] ]
   \<and> \<lfloor>255 * of_int (max 9007199254740992 0) / (of_int 9007199254740993 :: rat)\<rfloor> = 254
   \<and> process_static_array (\<lambda>v. 0) \<lparr>dtype = SInt 64, rows = [ [139637976727805, 140187732541694] ]\<rparr>
     = Inr [ [254, 255] ]
   \<and> \<lfloor>255 * of_int (max 139637976727805 0) / (of_int 140187732541694 :: rat)\<rfloor> = 253"
  by (simp add: eval_defs)

end
